theory Spec2Isabelle
  imports Main "HOL-Library.Sublist"
begin

section \<open>Runtime bucket router (packages/runtime/src/sheet.tsx)\<close>

subsection \<open>Buckets and the classification of a sheet\<close>

text \<open>
  The type \<open>Bucket\<close> of the source is the union of the nine short names
  \<open>'' | 'l' | 'v' | 'w' | 'f' | 'i' | 'h' | 'a' | 'm'\<close>; the catch-all bucket is the
  empty name.
\<close>

datatype Bucket =
  Bucket_catch_all | Bucket_l | Bucket_v | Bucket_w | Bucket_f | Bucket_i
  | Bucket_h | Bucket_a | Bucket_m

definition styleBucketOrdering :: "Bucket list" where
  "styleBucketOrdering =
     [Bucket_catch_all, Bucket_l, Bucket_v, Bucket_w, Bucket_f, Bucket_i,
      Bucket_h, Bucket_a, Bucket_m]"

text \<open>
  \<open>pseudosMap\<close> is an object literal with seven own properties. A property read
  \<open>pseudosMap[name]\<close> on an object literal also finds the members that every plain
  object inherits from \<open>Object.prototype\<close>; those are functions or objects, hence
  truthy. A read therefore has three outcomes: an own entry, an inherited member, or
  \<open>undefined\<close>.
\<close>

definition pseudosMap :: "string \<Rightarrow> Bucket option" where
  "pseudosMap name =
     (if name = ''k'' then Some Bucket_l
      else if name = ''ited'' then Some Bucket_v
      else if name = ''us-within'' then Some Bucket_w
      else if name = ''us'' then Some Bucket_f
      else if name = ''us-visible'' then Some Bucket_i
      else if name = ''er'' then Some Bucket_h
      else if name = ''ive'' then Some Bucket_a
      else None)"

definition object_prototype_members :: "string list" where
  "object_prototype_members =
     [''constructor'', ''hasOwnProperty'', ''isPrototypeOf'', ''propertyIsEnumerable'',
      ''toLocaleString'', ''toString'', ''valueOf'', ''__proto__'',
      ''__defineGetter__'', ''__defineSetter__'', ''__lookupGetter__'',
      ''__lookupSetter__'']"

text \<open>
  What \<open>getStyleBucketName\<close> returns, and what keys the registry: one of the nine bucket
  names, or the member of \<open>Object.prototype\<close> found under the given property name.
\<close>

datatype bucket_name = Named Bucket | Inherited string

text \<open>
  A sheet is the list of its code units, one \<open>char\<close> each; the three values that the
  classification looks for (\<open>@\<close>, \<open>:\<close> and the opening brace) are ASCII.
\<close>

definition charCodeAt :: "string \<Rightarrow> nat \<Rightarrow> nat option" where
  \<comment> \<open>\<open>None\<close> is the \<open>NaN\<close> of an index past the end.\<close>
  "charCodeAt s i = (if i < length s then Some (of_char (s ! i)) else None)"

fun indexOf :: "'a list \<Rightarrow> 'a \<Rightarrow> int" where
  "indexOf [] c = -1"
| "indexOf (x # xs) c =
     (if x = c then 0 else (let r = indexOf xs c in if r < 0 then -1 else r + 1))"

definition slice :: "string \<Rightarrow> int \<Rightarrow> int \<Rightarrow> string" where
  \<comment> \<open>\<open>String.prototype.slice\<close>: a negative bound counts from the end, both bounds are
      clamped to the string, and an empty range gives the empty string.\<close>
  "slice s beginIndex endIndex =
     (let len = int (length s);
          lo = (if beginIndex < 0 then max (len + beginIndex) 0 else min beginIndex len);
          hi = (if endIndex < 0 then max (len + endIndex) 0 else min endIndex len)
      in take (nat (hi - lo)) (drop (nat lo) s))"

definition getStyleBucketName :: "string \<Rightarrow> bucket_name" where
  "getStyleBucketName sheet =
     (if charCodeAt sheet 0 = Some 64 then Named Bucket_m
      else if charCodeAt sheet 10 = Some 58 then
        (let openBracketIndex = indexOf sheet (CHR ''{'');
             name = slice sheet 14 openBracketIndex
         in case pseudosMap name of
              Some b \<Rightarrow> Named b
            | None \<Rightarrow>
                if name \<in> set object_prototype_members then Inherited name
                else Named Bucket_catch_all)
      else Named Bucket_catch_all)"

subsection \<open>The registry and the host document\<close>

text \<open>
  Elements are identified by numbers; \<open>next_element\<close> is the identity that the next
  \<open>document.createElement\<close> gives out. \<open>head\<close> holds the children of
  \<open>document.head\<close> in document order, the style buckets as well as whatever else
  the page has put there. A style element has its \<open>nonce\<close> attribute, its
  child text nodes and the rule list of its CSSOM sheet.
\<close>

record StyleSheetOpts =
  nonce :: "string option"

record style_element =
  nonce_attribute :: "string option"
  childNodes :: "string list"
  cssRules :: "string list"

record document =
  styleBucketsInHead :: "bucket_name \<rightharpoonup> nat"
  head :: "nat list"
  elements :: "nat \<rightharpoonup> style_element"
  next_element :: nat

text \<open>
  The exceptions of the DOM calls that the router makes: \<open>insertBefore\<close> throws
  \<open>NotFoundError\<close>; the others are those of \<open>CSSStyleSheet.insertRule\<close>.
\<close>

datatype dom_exception =
  NotFoundError | SyntaxError | HierarchyRequestError | IndexSizeError
  | InvalidStateError | NotAllowedError | SecurityError

text \<open>
  The host: the value of \<open>process.env.NODE_ENV\<close>, and the host's
  \<open>sheet.insertRule(css, sheet.cssRules.length)\<close>. What that call does depends on the
  rules the sheet already holds and on the text: it throws (a \<open>SyntaxError\<close> for a
  text that is no rule, a \<open>HierarchyRequestError\<close> for a rule that may not stand at
  the end of this sheet, and so on), given here as \<open>Some\<close> of the exception, or it
  appends the rule.
\<close>

record host =
  NODE_ENV :: "string option"
  insertRule :: "string list \<Rightarrow> string \<Rightarrow> dom_exception option"

fun insertBefore :: "nat list \<Rightarrow> nat \<Rightarrow> nat option \<Rightarrow> nat list option" where
  \<comment> \<open>\<open>parent.insertBefore(node, ref)\<close> for a node that is not yet in the tree: a
      \<open>null\<close> reference appends, a reference that is no child throws
      \<open>NotFoundError\<close> (the result \<open>None\<close>).\<close>
  "insertBefore children node None = Some (children @ [node])"
| "insertBefore children node (Some ref) =
     (if ref \<in> set children
      then Some (takeWhile (\<lambda>c. c \<noteq> ref) children @ node # dropWhile (\<lambda>c. c \<noteq> ref) children)
      else None)"

fun nextBucketFromCache :: "(bucket_name \<rightharpoonup> nat) \<Rightarrow> Bucket list \<Rightarrow> nat option" where
  \<comment> \<open>The \<open>for\<close> loop of \<open>lazyAddStyleBucketToHead\<close> over the buckets from
      \<open>nextBucketIndex\<close> on: the first one that is in the registry.\<close>
  "nextBucketFromCache reg [] = None"
| "nextBucketFromCache reg (b # bs) =
     (case reg (Named b) of Some nextBucket \<Rightarrow> Some nextBucket
      | None \<Rightarrow> nextBucketFromCache reg bs)"

definition nextBucketIndex :: "bucket_name \<Rightarrow> nat" where
  \<comment> \<open>\<open>styleBucketOrdering.indexOf(bucketName) + 1\<close>; an inherited member is none of
      the nine names, so \<open>indexOf\<close> gives \<open>-1\<close>.\<close>
  "nextBucketIndex bucketName =
     nat ((case bucketName of Named b \<Rightarrow> indexOf styleBucketOrdering b | Inherited _ \<Rightarrow> -1) + 1)"

definition createStyleElement :: "StyleSheetOpts \<Rightarrow> style_element" where
  \<comment> \<open>\<open>opts.nonce && tag.setAttribute('nonce', opts.nonce)\<close>, then one empty text node.\<close>
  "createStyleElement opts =
     \<lparr>nonce_attribute = (case nonce opts of None \<Rightarrow> None
                          | Some n \<Rightarrow> if n = [] then None else Some n),
      childNodes = [[]],
      cssRules = []\<rparr>"

definition lazyAddStyleBucketToHead ::
  "bucket_name \<Rightarrow> StyleSheetOpts \<Rightarrow> document \<Rightarrow> (dom_exception + nat) \<times> document" where
  "lazyAddStyleBucketToHead bucketName opts d =
     (case styleBucketsInHead d bucketName of
        Some tag \<Rightarrow> (Inr tag, d)
      | None \<Rightarrow>
          (let nextBucket =
                 nextBucketFromCache (styleBucketsInHead d)
                   (drop (nextBucketIndex bucketName) styleBucketOrdering);
               tag = next_element d;
               d1 = d\<lparr>next_element := Suc tag,
                      elements := (elements d)(tag \<mapsto> createStyleElement opts),
                      styleBucketsInHead := (styleBucketsInHead d)(bucketName \<mapsto> tag)\<rparr>
           in case insertBefore (head d1) tag nextBucket of
                None \<Rightarrow> (Inl NotFoundError, d1)
              | Some children \<Rightarrow> (Inr tag, d1\<lparr>head := children\<rparr>)))"

definition update_element :: "nat \<Rightarrow> (style_element \<Rightarrow> style_element) \<Rightarrow> document \<Rightarrow> document" where
  "update_element tag f d =
     (case elements d tag of None \<Rightarrow> d
      | Some el \<Rightarrow> d\<lparr>elements := (elements d)(tag \<mapsto> f el)\<rparr>)"

definition sheet_rules :: "document \<Rightarrow> nat \<Rightarrow> string list" where
  \<comment> \<open>\<open>style.sheet.cssRules\<close> of a style element.\<close>
  "sheet_rules d tag = (case elements d tag of None \<Rightarrow> [] | Some el \<Rightarrow> cssRules el)"

definition applySheet ::
  "host \<Rightarrow> StyleSheetOpts \<Rightarrow> string \<Rightarrow> document \<Rightarrow> (dom_exception + unit) \<times> document" where
  \<comment> \<open>The function that \<open>createStyleSheet(opts)\<close> returns.\<close>
  "applySheet h opts css d =
     (let bucketName = getStyleBucketName css
      in case lazyAddStyleBucketToHead bucketName opts d of
           (Inl e, d1) \<Rightarrow> (Inl e, d1)
         | (Inr style, d1) \<Rightarrow>
             if NODE_ENV h = Some ''production'' then
               (case insertRule h (sheet_rules d1 style) css of
                  Some e \<Rightarrow> (Inl e, d1)
                | None \<Rightarrow>
                    (Inr (), update_element style (\<lambda>el. el\<lparr>cssRules := cssRules el @ [css]\<rparr>) d1))
             else (Inr (), update_element style (\<lambda>el. el\<lparr>childNodes := childNodes el @ [css]\<rparr>) d1))"

text \<open>
  A sequence of calls, each with its own options, each on the document the one before
  left, whether or not that one threw.
\<close>

fun applySheets :: "host \<Rightarrow> (StyleSheetOpts \<times> string) list \<Rightarrow> document \<Rightarrow> document" where
  "applySheets h [] d = d"
| "applySheets h ((opts, css) # rest) d = applySheets h rest (snd (applySheet h opts css d))"

definition precedence :: "Bucket \<Rightarrow> int" where
  "precedence b = indexOf styleBucketOrdering b"

text \<open>
  A fresh page: nothing registered, and every element already in the head was created
  before.
\<close>

definition fresh_page :: "document \<Rightarrow> bool" where
  "fresh_page d \<longleftrightarrow>
     styleBucketsInHead d = Map.empty \<and> (\<forall>x \<in> set (head d). x < next_element d)"

subsection \<open>The invariant of the registry\<close>

text \<open>
  The insertion points of the nine buckets that are registered, in the order of
  \<open>styleBucketOrdering\<close>.
\<close>

fun registered :: "(bucket_name \<rightharpoonup> nat) \<Rightarrow> Bucket list \<Rightarrow> nat list" where
  "registered reg [] = []"
| "registered reg (b # bs) =
     (case reg (Named b) of Some t \<Rightarrow> t # registered reg bs | None \<Rightarrow> registered reg bs)"

definition bucket_tags :: "document \<Rightarrow> nat list" where
  "bucket_tags d = registered (styleBucketsInHead d) styleBucketOrdering"

text \<open>
  What every call keeps: read off the head, the insertion points of the nine buckets are
  exactly \<open>bucket_tags\<close>, in that order and each once; every registered element exists,
  is a child of the head and is older than the next element to be created.
\<close>

definition well_formed :: "document \<Rightarrow> bool" where
  "well_formed d \<longleftrightarrow>
     filter (\<lambda>x. x \<in> set (bucket_tags d)) (head d) = bucket_tags d
     \<and> distinct (bucket_tags d)
     \<and> (\<forall>t \<in> ran (styleBucketsInHead d).
           t < next_element d \<and> t \<in> dom (elements d) \<and> t \<in> set (head d))
     \<and> (\<forall>x \<in> set (head d). x < next_element d)"

text \<open>The document after a bucket has been created, with the new children of the head.\<close>

definition with_bucket :: "bucket_name \<Rightarrow> StyleSheetOpts \<Rightarrow> nat list \<Rightarrow> document \<Rightarrow> document" where
  "with_bucket k opts children d =
     d\<lparr>next_element := Suc (next_element d),
       elements := (elements d)(next_element d \<mapsto> createStyleElement opts),
       styleBucketsInHead := (styleBucketsInHead d)(k \<mapsto> next_element d),
       head := children\<rparr>"

definition place_before :: "nat list \<Rightarrow> nat \<Rightarrow> nat list \<Rightarrow> nat list" where
  "place_before children node later =
     (case later of [] \<Rightarrow> children @ [node]
      | r # _ \<Rightarrow> takeWhile (\<lambda>c. c \<noteq> r) children @ node # dropWhile (\<lambda>c. c \<noteq> r) children)"

subsection \<open>Inputs of the evaluated examples\<close>

text \<open>
  A page whose head already holds two elements, and two hosts, one in debug and one in
  production mode. Their \<open>insertRule\<close> shows two of the refusals of a browser: the
  empty text is no rule, and an \<open>@import\<close> rule may not follow a rule of another kind.
\<close>

definition example_page :: document where
  "example_page = \<lparr>styleBucketsInHead = Map.empty, head = [0, 1], elements = Map.empty, next_element = 2\<rparr>"

definition example_insertRule :: "string list \<Rightarrow> string \<Rightarrow> dom_exception option" where
  "example_insertRule rules css =
     (if css = [] then Some SyntaxError
      else if take 7 css = ''@import'' \<and> filter (\<lambda>r. take 7 r \<noteq> ''@import'') rules \<noteq> []
      then Some HierarchyRequestError
      else None)"

definition debug_host :: host where
  "debug_host = \<lparr>NODE_ENV = None, insertRule = example_insertRule\<rparr>"

definition production_host :: host where
  "production_host = \<lparr>NODE_ENV = Some ''production'', insertRule = example_insertRule\<rparr>"

definition no_opts :: StyleSheetOpts where
  "no_opts = \<lparr>nonce = None\<rparr>"

section \<open>Build-time pipeline (packages/css/src/transform.ts)\<close>

subsection \<open>The global grouping pass\<close>

text \<open>
  The children of a postcss container: declarations, rules, at-rules and comments.
\<close>

datatype node =
  is_decl: Decl string string bool
  | is_rule: Rule string "node list"
  | is_atrule: AtRule string string "node list"
  | is_comment: Comment string

text \<open>
  \<open>root.each\<close> of \<open>groupGlobalRules\<close>, with the two arrays \<open>nodes\<close> and
  \<open>orphanDecls\<close> it fills: a declaration is collected, a rule is cloned with its
  selector prefixed, a comment is removed, and any other node (the \<open>default\<close> case)
  is passed over.
\<close>

fun each_node :: "string \<Rightarrow> node list \<Rightarrow> node list \<times> node list \<Rightarrow> node list \<times> node list" where
  "each_node uniqueName [] acc = acc"
| "each_node uniqueName (Decl p v i # rest) (nodes, orphanDecls) =
     each_node uniqueName rest (nodes, orphanDecls @ [Decl p v i])"
| "each_node uniqueName (Rule selector children # rest) (nodes, orphanDecls) =
     each_node uniqueName rest
       (nodes @ [Rule (''.'' @ uniqueName @ '' '' @ selector) children], orphanDecls)"
| "each_node uniqueName (Comment t # rest) (nodes, orphanDecls) =
     each_node uniqueName rest (nodes, orphanDecls)"
| "each_node uniqueName (AtRule n ps children # rest) (nodes, orphanDecls) =
     each_node uniqueName rest (nodes, orphanDecls)"

text \<open>
  The \<open>OnceExit\<close> handler of \<open>groupGlobalRules\<close>. Its arguments are the hash function
  of \<open>@compiled/utils\<close> (not among the sources, hence a parameter), the text
  \<open>root.source.input.css\<close> (what was given to postcss, without a leading byte order
  mark), and the children of the root.
  It returns the class names handed to \<open>callback\<close> and the new children of the root.
\<close>

definition groupGlobalRules ::
  "(string \<Rightarrow> string) \<Rightarrow> string \<Rightarrow> node list \<Rightarrow> string list \<times> node list" where
  "groupGlobalRules hash css root =
     (let uniqueName = hash css;
          (nodes, orphanDecls) = each_node uniqueName root ([], [])
      in ([''.'' @ uniqueName],
          if orphanDecls \<noteq> [] then Rule (''.'' @ uniqueName) orphanDecls # nodes else nodes))"

text \<open>A rule with its selector put under the class of the unique name.\<close>

fun scope_rule :: "string \<Rightarrow> node \<Rightarrow> node" where
  "scope_rule uniqueName (Rule selector children) =
     Rule (''.'' @ uniqueName @ '' '' @ selector) children"
| "scope_rule uniqueName n = n"

definition example_hash :: "string \<Rightarrow> string" where
  \<comment> \<open>Stands for the hash function in the evaluated examples, which do not depend on
      the names it gives.\<close>
  "example_hash css = ''1b1wq3m''"

subsection \<open>transformCss\<close>

record TransformOpts =
  optimizeCss :: "bool option"
  classNameCompressionMap :: "(string \<rightharpoonup> string) option"
  increaseSpecificity :: "bool option"
  sortAtRules :: "bool option"
  sortShorthand :: "bool option"
  classHashPrefix :: "string option"

text \<open>The plugins that \<open>transformCss\<close> hands to postcss, each with its options.\<close>

datatype plugin =
  DiscardDuplicates
  | DiscardEmptyRules
  | ParentOrphanedPseudos
  | Nested
  | NormalizeCSS TransformOpts
  | ExpandShorthands
  | GroupGlobalRules
  | AtomicifyRules "(string \<rightharpoonup> string) option" "string option"
  | IncreaseSpecificity
  | SortAtomicStyleSheet "bool option" "bool option"
  | Autoprefixer
  | Whitespace
  | ExtractStyleSheets

text \<open>
  What the call reads and writes outside its arguments: the environment variable
  \<open>AUTOPREFIXER\<close> and the console.
\<close>

record node_process =
  AUTOPREFIXER :: "string option"
  console :: "string list"

definition plugins :: "node_process \<Rightarrow> TransformOpts \<Rightarrow> bool \<Rightarrow> plugin list" where
  "plugins p opts isGlobal =
     [DiscardDuplicates, DiscardEmptyRules, ParentOrphanedPseudos, Nested,
      NormalizeCSS opts, ExpandShorthands]
     @ (if isGlobal then [GroupGlobalRules] else [])
     @ (if \<not> isGlobal
        then [AtomicifyRules (classNameCompressionMap opts) (classHashPrefix opts)] else [])
     @ (if increaseSpecificity opts = Some True then [IncreaseSpecificity] else [])
     @ [SortAtomicStyleSheet (sortAtRules opts) (sortShorthand opts)]
     @ (if AUTOPREFIXER p = Some ''off'' then [] else [Autoprefixer])
     @ [Whitespace, ExtractStyleSheets]"

text \<open>
  A value thrown inside the \<open>try\<close> block: an instance of \<open>Error\<close> with its message,
  or anything else, given by the text it has when interpolated.
\<close>

datatype thrown = Error_instance string | Other_value string

text \<open>
  \<open>createError\<close> of \<open>@compiled/utils\<close> is not among the sources: the error it builds
  is kept as the three arguments of \<open>createError(packageName, group)(message)\<close>.
\<close>

datatype compiled_error = CreateError string string string

definition error_message :: "string \<Rightarrow> string \<Rightarrow> string" where
  \<comment> \<open>The template literal of the \<open>catch\<close> block.\<close>
  "error_message css message =
     ''An unhandled exception was raised when parsing your CSS, this is probably a bug!''
     @ [CHR 0x0A]
     @ ''  Raise an issue here: https://github.com/atlassian-labs/compiled/issues/new?assignees=&labels=&template=bug_report.md&title=CSS%20Parsing%20Exception:%20''
     @ [CHR 0x0A, CHR 0x0A]
     @ ''  Input CSS: {'' @ [CHR 0x0A]
     @ ''    '' @ css @ [CHR 0x0A]
     @ ''  }'' @ [CHR 0x0A, CHR 0x0A]
     @ ''  Exception: '' @ message"

text \<open>
  Modelled from the spec: \<open>unique\<close> of \<open>@compiled/utils\<close>, which \<open>transformCss\<close> applies
  to the collected class names, is not among the sources. By the spec a class name that is
  generated several times in one compilation is one class name of the result; the model
  keeps the first occurrence of every entry, in the order of generation.
\<close>

definition unique :: "'a list \<Rightarrow> 'a list" where
  "unique xs = rev (remdups (rev xs))"

record transform_result =
  sheets :: "string list"
  classNames :: "string list"

text \<open>
  \<open>transformCss\<close>. The run of postcss over the plugin list (\<open>postcss(plugins).process(css)\<close>
  followed by the read of \<open>result.css\<close>) is the parameter \<open>run\<close>: it throws, or it
  completes having pushed sheets and class names through the two callbacks onto the
  arrays \<open>sheets\<close> and \<open>classNames\<close>, which are new and empty in every call.
\<close>

definition transformCss ::
  "(plugin list \<Rightarrow> string \<Rightarrow> thrown + string list \<times> string list)
   \<Rightarrow> string \<Rightarrow> TransformOpts \<Rightarrow> bool \<Rightarrow> node_process
   \<Rightarrow> (compiled_error + transform_result) \<times> node_process" where
  "transformCss run css opts isGlobal p =
     (let p1 = p\<lparr>console := console p @ [''css '' @ css]\<rparr>
      in case run (plugins p1 opts isGlobal) css of
           Inr (pushed_sheets, pushed_classNames) \<Rightarrow>
             (Inr \<lparr>sheets = pushed_sheets, classNames = unique pushed_classNames\<rparr>, p1)
         | Inl e \<Rightarrow>
             (let message = (case e of Error_instance m \<Rightarrow> m | Other_value v \<Rightarrow> v)
              in (Inl (CreateError ''css'' ''Unhandled exception'' (error_message css message)), p1)))"

text \<open>
  A run for the evaluated examples: it throws on a lone closing brace, as the parser of
  postcss does, and otherwise reports the input as one sheet and three class names, one of
  them twice.
\<close>

definition example_run :: "plugin list \<Rightarrow> string \<Rightarrow> thrown + string list \<times> string list" where
  "example_run ps css =
     (if css = ''}'' then Inl (Error_instance ''<css input>:1:1: Unexpected }'')
      else Inr ([css], [''_a'', ''_b'', ''_a'']))"


definition default_opts :: TransformOpts where
  "default_opts =
     \<lparr>optimizeCss = None, classNameCompressionMap = None, increaseSpecificity = None,
      sortAtRules = None, sortShorthand = None, classHashPrefix = None\<rparr>"

definition example_process :: node_process where
  "example_process = \<lparr>AUTOPREFIXER = None, console = []\<rparr>"

section \<open>Properties of the runtime bucket router\<close>

lemmas runtime_defs = example_page_def debug_host_def production_host_def no_opts_def
  example_insertRule_def sheet_rules_def applySheet_def lazyAddStyleBucketToHead_def getStyleBucketName_def charCodeAt_def slice_def
  pseudosMap_def object_prototype_members_def nextBucketIndex_def styleBucketOrdering_def
  update_element_def createStyleElement_def

lemma indexOf_member: "c \<in> set xs \<Longrightarrow> 0 \<le> indexOf xs c \<and> nat (indexOf xs c) < length xs \<and> xs ! nat (indexOf xs c) = c"
  by (induction xs) (auto simp: Let_def nat_add_distrib)

lemma indexOf_absent: "c \<notin> set xs \<Longrightarrow> indexOf xs c = -1"
  by (induction xs) (auto simp: Let_def)

lemma indexOf_nth: "distinct xs \<Longrightarrow> i < length xs \<Longrightarrow> indexOf xs (xs ! i) = int i"
proof (induction xs arbitrary: i)
  case Nil then show ?case by simp
next
  case (Cons x xs)
  show ?case
  proof (cases i)
    case 0 then show ?thesis by simp
  next
    case (Suc j)
    with Cons.prems have "xs ! j \<noteq> x" "j < length xs" "distinct xs" by auto
    with Cons.IH[of j] Suc show ?thesis by (simp add: Let_def)
  qed
qed

lemma all_buckets: "b \<in> set styleBucketOrdering"
  by (cases b) (simp_all add: styleBucketOrdering_def)

lemma distinct_ordering: "distinct styleBucketOrdering"
  by (simp add: styleBucketOrdering_def)

lemma length_ordering: "length styleBucketOrdering = 9"
  by (simp add: styleBucketOrdering_def)

lemma registered_append: "registered reg (xs @ ys) = registered reg xs @ registered reg ys"
  by (induction xs) (auto split: option.splits)

lemma registered_upd_other:
  "b \<notin> set bs \<Longrightarrow> registered (reg(Named b \<mapsto> t)) bs = registered reg bs"
  by (induction bs) (auto split: option.splits)

lemma registered_upd_inherited:
  "registered (reg(Inherited s \<mapsto> t)) bs = registered reg bs"
  by (induction bs) (auto split: option.splits)

lemma set_registered: "set (registered reg bs) = {t. \<exists>b \<in> set bs. reg (Named b) = Some t}"
  by (induction bs) (auto split: option.splits)

lemma nextBucketFromCache_registered:
  "nextBucketFromCache reg bs = (case registered reg bs of [] \<Rightarrow> None | t # _ \<Rightarrow> Some t)"
  by (induction bs) (auto split: option.splits)

lemma filter_split_at:
  "filter P xs = A @ r # B \<Longrightarrow> r \<notin> set A \<Longrightarrow>
     filter P (takeWhile (\<lambda>c. c \<noteq> r) xs) = A \<and> filter P (dropWhile (\<lambda>c. c \<noteq> r) xs) = r # B"
proof (induction xs arbitrary: A)
  case Nil then show ?case by simp
next
  case (Cons x xs)
  show ?case
  proof (cases "x = r")
    case True
    have "r \<in> set (filter P (x # xs))" using Cons.prems(1) by simp
    then have "P r" unfolding set_filter by blast
    with True Cons.prems show ?thesis by (cases A) auto
  next
    case False
    show ?thesis
    proof (cases "P x")
      case True
      with Cons.prems False obtain A' where A: "A = x # A'" "filter P xs = A' @ r # B"
        by (cases A) auto
      with Cons.prems have "r \<notin> set A'" by simp
      from Cons.IH[OF A(2) this] False True A show ?thesis by simp
    next
      case False
      with Cons.prems Cons.IH[of A] \<open>x \<noteq> r\<close> show ?thesis by simp
    qed
  qed
qed

lemma ordering_split:
  "styleBucketOrdering =
     take (nat (precedence b)) styleBucketOrdering @ b # drop (Suc (nat (precedence b))) styleBucketOrdering"
proof -
  let ?k = "nat (precedence b)"
  have "?k < length styleBucketOrdering" "styleBucketOrdering ! ?k = b"
    using indexOf_member[OF all_buckets, of b] by (simp_all add: precedence_def)
  with id_take_nth_drop[of ?k styleBucketOrdering] show ?thesis by simp
qed

lemma nextBucketIndex_Named: "nextBucketIndex (Named b) = Suc (nat (precedence b))"
  using indexOf_member[OF all_buckets, of b] by (simp add: nextBucketIndex_def precedence_def nat_add_distrib)

lemma nextBucketIndex_Inherited: "nextBucketIndex (Inherited s) = 0"
  by (simp add: nextBucketIndex_def)

lemma not_in_rest:
  "b \<notin> set (take (nat (precedence b)) styleBucketOrdering) \<and> b \<notin> set (drop (Suc (nat (precedence b))) styleBucketOrdering)"
proof -
  have "distinct (take (nat (precedence b)) styleBucketOrdering @ b # drop (Suc (nat (precedence b))) styleBucketOrdering)"
    using ordering_split[of b] distinct_ordering by simp
  then show ?thesis by auto
qed


lemma tags_in_head:
  assumes "well_formed d" "t \<in> set (bucket_tags d)"
  shows "t \<in> set (head d)"
proof -
  have "t \<in> set (filter (\<lambda>x. x \<in> set (bucket_tags d)) (head d))"
    using assms by (simp add: well_formed_def)
  then show ?thesis by simp
qed

lemma registered_drop_subset: "set (registered reg (drop k bs)) \<subseteq> set (registered reg bs)"
  using set_drop_subset[of k bs] by (auto simp: set_registered)

lemma registered_in_ran: "t \<in> set (registered reg bs) \<Longrightarrow> t \<in> ran reg"
  by (auto simp: set_registered ran_def)

lemma lazyAdd_existing:
  "styleBucketsInHead d k = Some t \<Longrightarrow> lazyAddStyleBucketToHead k opts d = (Inr t, d)"
  by (simp add: lazyAddStyleBucketToHead_def)

lemma lazyAdd_new:
  assumes wf: "well_formed d" and new: "styleBucketsInHead d k = None"
  shows "lazyAddStyleBucketToHead k opts d =
           (Inr (next_element d),
            with_bucket k opts
              (place_before (head d) (next_element d)
                 (registered (styleBucketsInHead d) (drop (nextBucketIndex k) styleBucketOrdering))) d)"
proof (cases "registered (styleBucketsInHead d) (drop (nextBucketIndex k) styleBucketOrdering)")
  case Nil
  then show ?thesis using new
    by (simp add: lazyAddStyleBucketToHead_def nextBucketFromCache_registered with_bucket_def
        place_before_def Let_def)
next
  case (Cons r rs)
  then have "r \<in> set (bucket_tags d)"
    using registered_drop_subset[of "styleBucketsInHead d" "nextBucketIndex k" styleBucketOrdering]
    by (auto simp: bucket_tags_def)
  then have "r \<in> set (head d)" using wf tags_in_head by blast
  then show ?thesis using new Cons
    by (simp add: lazyAddStyleBucketToHead_def nextBucketFromCache_registered with_bucket_def
        place_before_def Let_def)
qed

lemma filter_fresh:
  assumes "\<forall>x \<in> set xs. x < (n::nat)"
  shows "filter (\<lambda>x. x \<in> set (A @ n # B)) xs = filter (\<lambda>x. x \<in> set (A @ B)) xs"
proof (rule filter_cong[OF refl])
  fix x assume "x \<in> set xs"
  with assms have "x \<noteq> n" by auto
  then show "(x \<in> set (A @ n # B)) = (x \<in> set (A @ B))" by simp
qed

lemma place_before_filter:
  assumes f: "filter P children = A @ B" and d: "distinct (A @ B)" and n: "P n"
  shows "filter P (place_before children n B) = A @ n # B"
proof (cases B)
  case Nil
  then show ?thesis using f n by (simp add: place_before_def)
next
  case (Cons r rs)
  with d have "r \<notin> set A" by auto
  from filter_split_at[OF f[unfolded Cons] this] n Cons show ?thesis
    by (simp add: place_before_def)
qed

lemma place_before_filter_other:
  assumes n: "\<not> P n"
  shows "filter P (place_before children n B) = filter P children"
proof (cases B)
  case Nil
  then show ?thesis using n by (simp add: place_before_def)
next
  case (Cons r rs)
  have "filter P (takeWhile (\<lambda>c. c \<noteq> r) children) @ filter P (dropWhile (\<lambda>c. c \<noteq> r) children)
          = filter P children"
    by (metis filter_append takeWhile_dropWhile_id)
  then show ?thesis using n Cons by (simp add: place_before_def)
qed

lemma set_place_before: "set (place_before children n B) = insert n (set children)"
proof (cases B)
  case Nil then show ?thesis by (simp add: place_before_def)
next
  case (Cons r rs)
  have "set (takeWhile (\<lambda>c. c \<noteq> r) children) \<union> set (dropWhile (\<lambda>c. c \<noteq> r) children)
          = set children"
    by (metis set_append takeWhile_dropWhile_id)
  then show ?thesis using Cons by (simp add: place_before_def)
qed

lemma bucket_tags_with_Named:
  assumes "styleBucketsInHead d (Named b) = None"
  shows "bucket_tags d =
           registered (styleBucketsInHead d) (take (nat (precedence b)) styleBucketOrdering)
           @ registered (styleBucketsInHead d) (drop (Suc (nat (precedence b))) styleBucketOrdering)"
    and "bucket_tags (with_bucket (Named b) opts children d) =
           registered (styleBucketsInHead d) (take (nat (precedence b)) styleBucketOrdering)
           @ next_element d
           # registered (styleBucketsInHead d) (drop (Suc (nat (precedence b))) styleBucketOrdering)"
proof -
  let ?A = "take (nat (precedence b)) styleBucketOrdering"
  let ?B = "drop (Suc (nat (precedence b))) styleBucketOrdering"
  have split: "styleBucketOrdering = ?A @ b # ?B" by (rule ordering_split)
  have "registered (styleBucketsInHead d) (?A @ b # ?B)
          = registered (styleBucketsInHead d) ?A @ registered (styleBucketsInHead d) ?B"
    using assms by (simp add: registered_append)
  then show "bucket_tags d = registered (styleBucketsInHead d) ?A @ registered (styleBucketsInHead d) ?B"
    using split by (simp add: bucket_tags_def)
  have "registered ((styleBucketsInHead d)(Named b \<mapsto> next_element d)) (?A @ b # ?B)
          = registered (styleBucketsInHead d) ?A @ next_element d # registered (styleBucketsInHead d) ?B"
    using not_in_rest[of b] by (simp add: registered_append registered_upd_other)
  then show "bucket_tags (with_bucket (Named b) opts children d) =
           registered (styleBucketsInHead d) ?A @ next_element d # registered (styleBucketsInHead d) ?B"
    using split by (simp add: bucket_tags_def with_bucket_def)
qed

lemma bucket_tags_with_Inherited:
  "bucket_tags (with_bucket (Inherited s) opts children d) = bucket_tags d"
  by (simp add: bucket_tags_def with_bucket_def registered_upd_inherited)

lemma well_formed_fresh:
  assumes "well_formed d"
  shows "next_element d \<notin> set (bucket_tags d)" "next_element d \<notin> set (head d)"
    "\<forall>x \<in> set (head d). x < next_element d"
  using assms registered_in_ran[of "next_element d" "styleBucketsInHead d" styleBucketOrdering]
  by (auto simp: well_formed_def bucket_tags_def)

lemma well_formed_rest:
  assumes wf: "well_formed d" and new: "styleBucketsInHead d k = None"
  shows "(\<forall>t \<in> ran (styleBucketsInHead (with_bucket k opts (place_before (head d) (next_element d) B) d)).
            t < next_element (with_bucket k opts (place_before (head d) (next_element d) B) d)
            \<and> t \<in> dom (elements (with_bucket k opts (place_before (head d) (next_element d) B) d))
            \<and> t \<in> set (head (with_bucket k opts (place_before (head d) (next_element d) B) d)))
         \<and> (\<forall>x \<in> set (head (with_bucket k opts (place_before (head d) (next_element d) B) d)).
            x < next_element (with_bucket k opts (place_before (head d) (next_element d) B) d))"
  using wf new
  by (auto simp: well_formed_def with_bucket_def set_place_before ran_def less_Suc_eq split: if_splits)


lemma well_formed_with_bucket:
  assumes wf: "well_formed d" and new: "styleBucketsInHead d k = None"
  shows "well_formed (with_bucket k opts
           (place_before (head d) (next_element d)
              (registered (styleBucketsInHead d) (drop (nextBucketIndex k) styleBucketOrdering))) d)"
    (is "well_formed ?d'")
proof -
  let ?n = "next_element d"
  let ?reg = "styleBucketsInHead d"
  note fresh = well_formed_fresh[OF wf]
  have flt: "filter (\<lambda>x. x \<in> set (bucket_tags d)) (head d) = bucket_tags d"
    and dist: "distinct (bucket_tags d)"
    using wf by (simp_all add: well_formed_def)
  have main: "filter (\<lambda>x. x \<in> set (bucket_tags ?d')) (head ?d') = bucket_tags ?d'
              \<and> distinct (bucket_tags ?d')"
  proof (cases k)
    case (Named b)
    let ?A = "registered ?reg (take (nat (precedence b)) styleBucketOrdering)"
    let ?B = "registered ?reg (drop (Suc (nat (precedence b))) styleBucketOrdering)"
    have old: "bucket_tags d = ?A @ ?B"
      using bucket_tags_with_Named(1)[of d b] new Named by simp
    have new_tags: "bucket_tags ?d' = ?A @ ?n # ?B"
      using bucket_tags_with_Named(2)[of d b] new Named by simp
    have hd': "head ?d' = place_before (head d) ?n ?B"
      using Named by (simp add: with_bucket_def nextBucketIndex_Named)
    have "filter (\<lambda>x. x \<in> set (?A @ ?n # ?B)) (head d) = ?A @ ?B"
      using filter_fresh[OF fresh(3), of ?A ?B] flt old by simp
    moreover have "distinct (?A @ ?B)" using dist old by simp
    ultimately have "filter (\<lambda>x. x \<in> set (?A @ ?n # ?B)) (place_before (head d) ?n ?B) = ?A @ ?n # ?B"
      by (intro place_before_filter) simp_all
    moreover have "distinct (?A @ ?n # ?B)"
      using dist fresh(1) old by auto
    ultimately show ?thesis using new_tags hd' by simp
  next
    case (Inherited s)
    have tags: "bucket_tags ?d' = bucket_tags d"
      using Inherited by (simp add: bucket_tags_with_Inherited)
    have "head ?d' = place_before (head d) ?n (registered ?reg (drop (nextBucketIndex k) styleBucketOrdering))"
      by (simp add: with_bucket_def)
    then have "filter (\<lambda>x. x \<in> set (bucket_tags d)) (head ?d') = filter (\<lambda>x. x \<in> set (bucket_tags d)) (head d)"
      using fresh(1) by (simp add: place_before_filter_other)
    then show ?thesis using tags flt dist by simp
  qed
  with well_formed_rest[OF wf new, of opts] show ?thesis
    unfolding well_formed_def by blast
qed

lemma well_formed_lazyAdd:
  assumes "well_formed d"
  shows "well_formed (snd (lazyAddStyleBucketToHead k opts d))"
proof (cases "styleBucketsInHead d k")
  case None
  then show ?thesis using assms by (simp add: lazyAdd_new well_formed_with_bucket)
next
  case (Some t)
  then show ?thesis using assms by (simp add: lazyAdd_existing)
qed

lemma lazyAdd_returns:
  assumes "well_formed d"
  shows "\<exists>tag. fst (lazyAddStyleBucketToHead k opts d) = Inr tag
           \<and> styleBucketsInHead (snd (lazyAddStyleBucketToHead k opts d)) k = Some tag"
proof (cases "styleBucketsInHead d k")
  case None
  then show ?thesis using assms by (simp add: lazyAdd_new with_bucket_def)
next
  case (Some t)
  then show ?thesis by (simp add: lazyAdd_existing)
qed

lemma well_formed_update_element:
  "well_formed d \<Longrightarrow> well_formed (update_element tag f d)"
  by (auto simp: well_formed_def update_element_def bucket_tags_def split: option.splits)

lemma update_element_frame:
  "head (update_element tag f d) = head d"
  "styleBucketsInHead (update_element tag f d) = styleBucketsInHead d"
  "next_element (update_element tag f d) = next_element d"
  by (simp_all add: update_element_def split: option.splits)

lemma applySheet_frame:
  "head (snd (applySheet h opts css d)) = head (snd (lazyAddStyleBucketToHead (getStyleBucketName css) opts d))"
  "styleBucketsInHead (snd (applySheet h opts css d)) =
     styleBucketsInHead (snd (lazyAddStyleBucketToHead (getStyleBucketName css) opts d))"
  "next_element (snd (applySheet h opts css d)) =
     next_element (snd (lazyAddStyleBucketToHead (getStyleBucketName css) opts d))"
  by (auto simp: applySheet_def Let_def update_element_frame
      split: prod.splits sum.splits option.splits)

lemma well_formed_applySheet:
  assumes "well_formed d"
  shows "well_formed (snd (applySheet h opts css d))"
proof -
  have "well_formed (snd (lazyAddStyleBucketToHead (getStyleBucketName css) opts d))"
    using assms by (rule well_formed_lazyAdd)
  then show ?thesis
    by (auto simp: applySheet_def Let_def well_formed_update_element
        split: prod.splits sum.splits option.splits)
qed

lemma well_formed_applySheets:
  "well_formed d \<Longrightarrow> well_formed (applySheets h calls d)"
  by (induction calls arbitrary: d) (auto simp: well_formed_applySheet)

lemma fresh_page_well_formed: "fresh_page d \<Longrightarrow> well_formed d"
proof -
  assume f: "fresh_page d"
  have "registered Map.empty bs = []" for bs by (induction bs) simp_all
  with f show ?thesis by (simp add: fresh_page_def well_formed_def bucket_tags_def)
qed

lemma indexOf_cases: "indexOf xs c = -1 \<or> 0 \<le> indexOf xs c"
  by (cases "c \<in> set xs") (simp_all add: indexOf_member indexOf_absent)

lemma registered_in_order:
  assumes "indexOf bs b1 < indexOf bs b2" "b1 \<in> set bs"
    and "reg (Named b1) = Some t1" "reg (Named b2) = Some t2"
  shows "\<exists>X Y Z. registered reg bs = X @ t1 # Y @ t2 # Z"
  using assms
proof (induction bs)
  case Nil then show ?case by simp
next
  case (Cons x bs)
  show ?case
  proof (cases "x = b1")
    case True
    with Cons.prems have "b2 \<noteq> x" by auto
    with Cons.prems(1) True have "b2 \<in> set bs"
      using indexOf_absent[of b2 bs] by (auto simp: Let_def split: if_splits)
    with Cons.prems(4) have "t2 \<in> set (registered reg bs)" by (auto simp: set_registered)
    then obtain Y Z where "registered reg bs = Y @ t2 # Z" by (auto simp: in_set_conv_decomp)
    with True Cons.prems(3) have "registered reg (x # bs) = [] @ t1 # Y @ t2 # Z" by simp
    then show ?thesis by blast
  next
    case False
    with Cons.prems have b1: "b1 \<in> set bs" by simp
    then have i1: "0 \<le> indexOf bs b1" by (simp add: indexOf_member)
    have "x \<noteq> b2" using Cons.prems(1) False i1 by (auto simp: Let_def split: if_splits)
    with Cons.prems(1) False i1 have "indexOf bs b1 < indexOf bs b2"
      by (auto simp: Let_def split: if_splits)
    from Cons.IH[OF this b1 Cons.prems(3,4)] obtain X Y Z
      where r: "registered reg bs = X @ t1 # Y @ t2 # Z" by blast
    show ?thesis
    proof (cases "reg (Named x)")
      case None
      with r have "registered reg (x # bs) = X @ t1 # Y @ t2 # Z" by simp
      then show ?thesis by blast
    next
      case (Some t)
      with r have "registered reg (x # bs) = (t # X) @ t1 # Y @ t2 # Z" by simp
      then show ?thesis by blast
    qed
  qed
qed

lemma filter_eq_appendD:
  "filter P xs = A @ B \<Longrightarrow> \<exists>us vs. xs = us @ vs \<and> filter P us = A \<and> filter P vs = B"
proof (induction A arbitrary: xs)
  case Nil
  then have "xs = [] @ xs \<and> filter P [] = [] \<and> filter P xs = B" by simp
  then show ?case by blast
next
  case (Cons a A)
  then have "filter P xs = a # (A @ B)" by simp
  from filter_eq_ConsD[OF this] obtain us vs
    where 1: "xs = us @ a # vs" "\<forall>u \<in> set us. \<not> P u" "P a" "A @ B = filter P vs" by blast
  from Cons.IH[OF 1(4)[symmetric]] obtain us' vs'
    where 2: "vs = us' @ vs'" "filter P us' = A" "filter P vs' = B" by blast
  from 1 2 have "xs = (us @ a # us') @ vs' \<and> filter P (us @ a # us') = a # A \<and> filter P vs' = B"
    by simp
  then show ?case by blast
qed

lemma filter_in_order_once:
  assumes f: "filter P xs = X @ a # Y @ b # Z" and d: "distinct (X @ a # Y @ b # Z)"
  shows "\<exists>ps ms ss. xs = ps @ a # ms @ b # ss
           \<and> a \<notin> set (ps @ ms @ b # ss) \<and> b \<notin> set (ps @ a # ms @ ss)"
proof -
  from filter_eq_appendD[OF f] obtain us vs
    where 1: "xs = us @ vs" "filter P us = X" "filter P vs = a # Y @ b # Z" by blast
  from filter_eq_ConsD[OF 1(3)] obtain ws ys
    where 2: "vs = ws @ a # ys" "\<forall>u \<in> set ws. \<not> P u" "P a" "Y @ b # Z = filter P ys" by blast
  from filter_eq_appendD[OF 2(4)[symmetric]] obtain ms ts
    where 3: "ys = ms @ ts" "filter P ms = Y" "filter P ts = b # Z" by blast
  from filter_eq_ConsD[OF 3(3)] obtain qs ss
    where 4: "ts = qs @ b # ss" "\<forall>u \<in> set qs. \<not> P u" "P b" "Z = filter P ss" by blast
  have in_filter: "c \<in> set zs \<Longrightarrow> P c \<Longrightarrow> c \<in> set (filter P zs)" for c zs by simp
  have a: "a \<notin> set us" "a \<notin> set ws" "a \<notin> set ms" "a \<notin> set qs" "a \<notin> set ss" "a \<noteq> b"
    using d 1(2) 2(2,3) 3(2) 4(2,4) in_filter[of a] by auto
  have b: "b \<notin> set us" "b \<notin> set ws" "b \<notin> set ms" "b \<notin> set qs" "b \<notin> set ss"
    using d 1(2) 2(2) 3(2) 4(2,3,4) in_filter[of b] by auto
  have "xs = (us @ ws) @ a # (ms @ qs) @ b # ss" using 1 2 3 4 by simp
  moreover have "a \<notin> set ((us @ ws) @ (ms @ qs) @ b # ss)" using a by simp
  moreover have "b \<notin> set ((us @ ws) @ a # (ms @ qs) @ ss)" using a b by simp
  ultimately show ?thesis by blast
qed

text \<open>
  Claim C1. On a page that started without buckets, after any sequence of \<open>applySheet\<close>
  calls, whenever two of the nine buckets both have an insertion point, the insertion
  point of the bucket that comes first in the fixed precedence stands before the other
  one among the children of the head, where each of the two occurs once.
\<close>

theorem bucket_order:
  assumes "fresh_page d0"
    and "styleBucketsInHead (applySheets h calls d0) (Named b1) = Some t1"
    and "styleBucketsInHead (applySheets h calls d0) (Named b2) = Some t2"
    and "precedence b1 < precedence b2"
  shows "\<exists>ps ms ss. head (applySheets h calls d0) = ps @ t1 # ms @ t2 # ss
           \<and> t1 \<notin> set (ps @ ms @ t2 # ss) \<and> t2 \<notin> set (ps @ t1 # ms @ ss)"
proof -
  let ?d = "applySheets h calls d0"
  have wf: "well_formed ?d"
    using assms(1) by (simp add: fresh_page_well_formed well_formed_applySheets)
  from registered_in_order[OF assms(4)[unfolded precedence_def] all_buckets assms(2,3)]
  obtain X Y Z where tags: "bucket_tags ?d = X @ t1 # Y @ t2 # Z"
    by (auto simp: bucket_tags_def)
  with wf have "filter (\<lambda>x. x \<in> set (bucket_tags ?d)) (head ?d) = X @ t1 # Y @ t2 # Z"
    and "distinct (X @ t1 # Y @ t2 # Z)"
    by (simp_all add: well_formed_def)
  then show ?thesis by (rule filter_in_order_once)
qed

theorem bucket_order_witness:
  "fresh_page example_page
   \<and> styleBucketsInHead
        (applySheets debug_host
           [(no_opts, ''._a1234567:hover{color:red}''), (no_opts, ''._b1234567{color:blue}'')] example_page)
        (Named Bucket_catch_all) = Some 3
   \<and> styleBucketsInHead
        (applySheets debug_host
           [(no_opts, ''._a1234567:hover{color:red}''), (no_opts, ''._b1234567{color:blue}'')] example_page)
        (Named Bucket_h) = Some 2
   \<and> precedence Bucket_catch_all < precedence Bucket_h
   \<and> (\<exists>ps ms ss. head (applySheets debug_host
           [(no_opts, ''._a1234567:hover{color:red}''), (no_opts, ''._b1234567{color:blue}'')] example_page)
         = ps @ 3 # ms @ 2 # ss
         \<and> 3 \<notin> set (ps @ ms @ 2 # ss) \<and> 2 \<notin> set (ps @ 3 # ms @ ss))"
proof -
  let ?d = "applySheets debug_host
              [(no_opts, ''._a1234567:hover{color:red}''), (no_opts, ''._b1234567{color:blue}'')] example_page"
  note defs = runtime_defs precedence_def
  have fresh: "fresh_page example_page" by (simp add: fresh_page_def example_page_def)
  have c: "styleBucketsInHead ?d (Named Bucket_catch_all) = Some 3" by (simp add: defs)
  have h: "styleBucketsInHead ?d (Named Bucket_h) = Some 2" by (simp add: defs)
  have lt: "precedence Bucket_catch_all < precedence Bucket_h" by (simp add: defs)
  from bucket_order[OF fresh c h lt] fresh c h lt show ?thesis by blast
qed

lemma registered_none: "\<forall>b \<in> set bs. reg (Named b) = None \<Longrightarrow> registered reg bs = []"
  by (induction bs) simp_all

lemma precedence_nth:
  "i < length styleBucketOrdering \<Longrightarrow> precedence (styleBucketOrdering ! i) = int i"
  by (simp add: precedence_def indexOf_nth distinct_ordering)

lemma precedence_range: "0 \<le> precedence b \<and> nat (precedence b) < length styleBucketOrdering
    \<and> styleBucketOrdering ! nat (precedence b) = b"
  using indexOf_member[OF all_buckets, of b] by (simp add: precedence_def)

lemma later_buckets:
  "b' \<in> set (drop (Suc (nat (precedence b))) styleBucketOrdering) \<longleftrightarrow> precedence b < precedence b'"
proof
  assume "b' \<in> set (drop (Suc (nat (precedence b))) styleBucketOrdering)"
  then obtain i where i: "i < length styleBucketOrdering - Suc (nat (precedence b))"
      "b' = styleBucketOrdering ! (Suc (nat (precedence b)) + i)"
    by (auto simp: in_set_conv_nth)
  then have "precedence b' = int (Suc (nat (precedence b)) + i)"
    using precedence_nth[of "Suc (nat (precedence b)) + i"] by simp
  then show "precedence b < precedence b'" using precedence_range[of b] by linarith
next
  assume lt: "precedence b < precedence b'"
  let ?j = "nat (precedence b')"
  let ?k = "Suc (nat (precedence b))"
  have j: "?j < length styleBucketOrdering" "styleBucketOrdering ! ?j = b'" "?k \<le> ?j"
    using precedence_range[of b'] precedence_range[of b] lt by auto
  then have "(drop ?k styleBucketOrdering) ! (?j - ?k) = b'" "?j - ?k < length (drop ?k styleBucketOrdering)"
    by auto
  then show "b' \<in> set (drop ?k styleBucketOrdering)" by (metis nth_mem)
qed

lemma nearest_later:
  assumes lt: "precedence b < precedence b'"
    and r: "reg (Named b') = Some r"
    and gap: "\<forall>b''. precedence b < precedence b'' \<and> precedence b'' < precedence b' \<longrightarrow> reg (Named b'') = None"
  shows "\<exists>rs. registered reg (drop (Suc (nat (precedence b))) styleBucketOrdering) = r # rs"
proof -
  let ?j = "nat (precedence b')"
  let ?k = "Suc (nat (precedence b))"
  let ?xs = "drop ?k styleBucketOrdering"
  have j: "?j < length styleBucketOrdering" "styleBucketOrdering ! ?j = b'" "?k \<le> ?j"
    using precedence_range[of b'] precedence_range[of b] lt by auto
  then have m: "?j - ?k < length ?xs" "?xs ! (?j - ?k) = b'" by auto
  have split: "?xs = take (?j - ?k) ?xs @ b' # drop (Suc (?j - ?k)) ?xs"
    using id_take_nth_drop[OF m(1)] m(2) by simp
  have "reg (Named c) = None" if "c \<in> set (take (?j - ?k) ?xs)" for c
  proof -
    from that obtain i where i: "i < ?j - ?k" "c = ?xs ! i"
      by (auto simp: in_set_conv_nth)
    then have "c = styleBucketOrdering ! (?k + i)" using j by simp
    moreover have "?k + i < length styleBucketOrdering" using i j by linarith
    ultimately have "precedence c = int (?k + i)" using precedence_nth by simp
    then have "precedence b < precedence c \<and> precedence c < precedence b'"
      using i precedence_range[of b] precedence_range[of b'] by linarith
    with gap show ?thesis by blast
  qed
  then have "registered reg (take (?j - ?k) ?xs) = []" by (simp add: registered_none)
  then have "registered reg (take (?j - ?k) ?xs @ b' # drop (Suc (?j - ?k)) ?xs)
               = r # registered reg (drop (Suc (?j - ?k)) ?xs)"
    using r by (simp add: registered_append)
  with split show ?thesis by metis
qed

lemma place_before_at:
  assumes "r \<in> set children"
  shows "\<exists>ps ss. children = ps @ r # ss \<and> r \<notin> set ps
           \<and> place_before children n (r # rs) = ps @ n # r # ss"
proof -
  let ?ps = "takeWhile (\<lambda>c. c \<noteq> r) children"
  let ?ss = "tl (dropWhile (\<lambda>c. c \<noteq> r) children)"
  have ne: "dropWhile (\<lambda>c. c \<noteq> r) children \<noteq> []" using assms by (simp add: dropWhile_eq_Nil_conv)
  moreover have "hd (dropWhile (\<lambda>c. c \<noteq> r) children) = r"
    using hd_dropWhile[OF ne] by simp
  ultimately have dw: "dropWhile (\<lambda>c. c \<noteq> r) children = r # ?ss"
    by (metis list.collapse)
  have "children = ?ps @ r # ?ss" using dw by (metis takeWhile_dropWhile_id)
  moreover have "r \<notin> set ?ps" by (auto dest: set_takeWhileD)
  moreover have "place_before children n (r # rs) = ?ps @ n # r # ?ss"
    using dw by (simp add: place_before_def)
  ultimately show ?thesis by blast
qed

text \<open>
  Claim C6. When the sheet belongs to a bucket without an insertion point, the call
  registers one new element for it, which was not in the head before. If no bucket of
  higher precedence is registered, the element is appended to the head; otherwise it is
  put immediately before the insertion point of the nearest registered bucket of higher
  precedence, the rest of the head staying as it was.
\<close>

theorem new_bucket_placement:
  assumes fresh: "fresh_page d0"
    and cls: "getStyleBucketName css = Named b"
    and new: "styleBucketsInHead (applySheets h calls d0) (Named b) = None"
  shows "(let d = applySheets h calls d0; d' = snd (applySheet h opts css d); tag = next_element d in
          styleBucketsInHead d' = (styleBucketsInHead d)(Named b \<mapsto> tag)
          \<and> tag \<notin> set (head d)
          \<and> ((\<forall>b'. precedence b < precedence b' \<longrightarrow> styleBucketsInHead d (Named b') = None)
               \<longrightarrow> head d' = head d @ [tag])
          \<and> (\<forall>b' r. precedence b < precedence b' \<and> styleBucketsInHead d (Named b') = Some r
                 \<and> (\<forall>b''. precedence b < precedence b'' \<and> precedence b'' < precedence b'
                        \<longrightarrow> styleBucketsInHead d (Named b'') = None)
               \<longrightarrow> (\<exists>ps ss. head d = ps @ r # ss \<and> r \<notin> set ps \<and> head d' = ps @ tag # r # ss)))"
proof -
  let ?d = "applySheets h calls d0"
  let ?d' = "snd (applySheet h opts css ?d)"
  let ?tag = "next_element ?d"
  let ?later = "registered (styleBucketsInHead ?d) (drop (Suc (nat (precedence b))) styleBucketOrdering)"
  have wf: "well_formed ?d"
    using fresh by (simp add: fresh_page_well_formed well_formed_applySheets)
  have lazy: "snd (lazyAddStyleBucketToHead (Named b) opts ?d)
                = with_bucket (Named b) opts (place_before (head ?d) ?tag ?later) ?d"
    using lazyAdd_new[OF wf new, of opts] by (simp add: nextBucketIndex_Named)
  have reg: "styleBucketsInHead ?d' = (styleBucketsInHead ?d)(Named b \<mapsto> ?tag)"
    using lazy cls by (simp add: applySheet_frame with_bucket_def)
  have hd': "head ?d' = place_before (head ?d) ?tag ?later"
    using lazy cls by (simp add: applySheet_frame with_bucket_def)
  have notin: "?tag \<notin> set (head ?d)" using well_formed_fresh(2)[OF wf] .
  have last: "head ?d' = head ?d @ [?tag]"
    if "\<forall>b'. precedence b < precedence b' \<longrightarrow> styleBucketsInHead ?d (Named b') = None"
  proof -
    from that have "?later = []" by (intro registered_none) (simp add: later_buckets)
    with hd' show ?thesis by (simp add: place_before_def)
  qed
  have before: "\<exists>ps ss. head ?d = ps @ r # ss \<and> r \<notin> set ps \<and> head ?d' = ps @ ?tag # r # ss"
    if lt: "precedence b < precedence b'" and r: "styleBucketsInHead ?d (Named b') = Some r"
      and gap: "\<forall>b''. precedence b < precedence b'' \<and> precedence b'' < precedence b'
                  \<longrightarrow> styleBucketsInHead ?d (Named b'') = None"
    for b' r
  proof -
    from nearest_later[OF lt r gap] obtain rs where rs: "?later = r # rs" by blast
    have "r \<in> set (bucket_tags ?d)"
      using r all_buckets[of b'] by (auto simp: bucket_tags_def set_registered)
    then have "r \<in> set (head ?d)" using wf tags_in_head by blast
    from place_before_at[OF this, of ?tag rs] hd' rs show ?thesis by simp
  qed
  show ?thesis unfolding Let_def using reg notin last before by blast
qed

theorem new_bucket_placement_witness:
  "fresh_page example_page
   \<and> getStyleBucketName ''._b1234567:link{color:blue}'' = Named Bucket_l
   \<and> styleBucketsInHead
        (applySheets debug_host
           [(no_opts, ''._a1234567:hover{color:red}''),
            (no_opts, ''@media screen{._c1234567{color:red}}'')] example_page)
        (Named Bucket_l) = None
   \<and> head (applySheets debug_host
           [(no_opts, ''._a1234567:hover{color:red}''),
            (no_opts, ''@media screen{._c1234567{color:red}}'')] example_page)
       = [0, 1, 2, 3]
   \<and> (\<exists>ps ss.
         head (applySheets debug_host
           [(no_opts, ''._a1234567:hover{color:red}''),
            (no_opts, ''@media screen{._c1234567{color:red}}'')] example_page)
           = ps @ 2 # ss
         \<and> 2 \<notin> set ps
         \<and> head (snd (applySheet debug_host no_opts ''._b1234567:link{color:blue}''
              (applySheets debug_host
                [(no_opts, ''._a1234567:hover{color:red}''),
                 (no_opts, ''@media screen{._c1234567{color:red}}'')]
                example_page)))
           = ps @ 4 # 2 # ss)"
proof -
  let ?calls = "[(no_opts, ''._a1234567:hover{color:red}''),
                 (no_opts, ''@media screen{._c1234567{color:red}}'')]"
  let ?d = "applySheets debug_host ?calls example_page"
  let ?d' = "snd (applySheet debug_host no_opts ''._b1234567:link{color:blue}'' ?d)"
  note defs = runtime_defs precedence_def
  have fresh: "fresh_page example_page" by (simp add: fresh_page_def example_page_def)
  have cls: "getStyleBucketName ''._b1234567:link{color:blue}'' = Named Bucket_l"
    by (simp add: defs)
  have reg: "styleBucketsInHead ?d = [Named Bucket_h \<mapsto> 2, Named Bucket_m \<mapsto> 3]"
    by (simp add: defs)
  have new: "styleBucketsInHead ?d (Named Bucket_l) = None" unfolding reg by simp
  have before: "head ?d = [0, 1, 2, 3]" by (simp add: defs)
  have tag: "next_element ?d = 4" by (simp add: defs)
  have hover: "styleBucketsInHead ?d (Named Bucket_h) = Some 2" unfolding reg by simp
  have lt: "precedence Bucket_l < precedence Bucket_h"
    by (simp add: precedence_def styleBucketOrdering_def)
  have gap: "\<forall>b''. precedence Bucket_l < precedence b'' \<and> precedence b'' < precedence Bucket_h
               \<longrightarrow> styleBucketsInHead ?d (Named b'') = None"
  proof (intro allI impI)
    fix b'' assume a: "precedence Bucket_l < precedence b'' \<and> precedence b'' < precedence Bucket_h"
    then have "b'' \<noteq> Bucket_h \<and> b'' \<noteq> Bucket_m"
      by (cases b'') (simp_all add: precedence_def styleBucketOrdering_def)
    then show "styleBucketsInHead ?d (Named b'') = None" unfolding reg by simp
  qed
  note placed = new_bucket_placement[OF fresh cls new, unfolded Let_def tag]
  have "\<exists>ps ss. head ?d = ps @ 2 # ss \<and> 2 \<notin> set ps \<and> head ?d' = ps @ 4 # 2 # ss"
    using placed[THEN conjunct2, THEN conjunct2, THEN conjunct2, rule_format,
        OF conjI[OF lt conjI[OF hover gap]]] .
  with fresh cls new before show ?thesis by (intro conjI)
qed

text \<open>
  Claim C5. The classification does not send every name without an entry of the table to
  the catch-all bucket: the read \<open>pseudosMap[name]\<close> also finds what an object literal
  inherits, so for the name \<open>constructor\<close> the function returns that inherited member,
  which is none of the nine buckets.
\<close>

theorem getStyleBucketName_inherited_member:
  "getStyleBucketName ''._a1234567:xxxconstructor{color:red}'' = Inherited ''constructor''
   \<and> pseudosMap ''constructor'' = None"
  by (simp add: getStyleBucketName_def charCodeAt_def slice_def pseudosMap_def
      object_prototype_members_def)

text \<open>
  For every other name the classification is the one of the table: the at-rule bucket for
  a leading \<open>@\<close>; with a colon at offset 10, the entry of \<open>pseudosMap\<close> for the
  text from offset 14 to the first opening brace, and the catch-all bucket when there is
  no entry; the catch-all bucket without the colon.
\<close>

lemma getStyleBucketName_table:
  assumes "slice sheet 14 (indexOf sheet (CHR ''{'')) \<notin> set object_prototype_members"
  shows "getStyleBucketName sheet =
           (if charCodeAt sheet 0 = Some 64 then Named Bucket_m
            else if charCodeAt sheet 10 = Some 58 then
              (case pseudosMap (slice sheet 14 (indexOf sheet (CHR ''{''))) of
                 Some b \<Rightarrow> Named b | None \<Rightarrow> Named Bucket_catch_all)
            else Named Bucket_catch_all)"
  using assms by (simp add: getStyleBucketName_def Let_def split: option.splits)

lemma lazyAdd_result:
  assumes wf: "well_formed d"
  shows "\<exists>tag el. fst (lazyAddStyleBucketToHead k opts d) = Inr tag
           \<and> well_formed (snd (lazyAddStyleBucketToHead k opts d))
           \<and> styleBucketsInHead (snd (lazyAddStyleBucketToHead k opts d)) k = Some tag
           \<and> tag \<in> set (head (snd (lazyAddStyleBucketToHead k opts d)))
           \<and> elements (snd (lazyAddStyleBucketToHead k opts d)) tag = Some el
           \<and> (styleBucketsInHead d k = None \<longrightarrow> tag = next_element d \<and> el = createStyleElement opts)
           \<and> (styleBucketsInHead d k \<noteq> None \<longrightarrow> snd (lazyAddStyleBucketToHead k opts d) = d)"
proof -
  let ?d1 = "snd (lazyAddStyleBucketToHead k opts d)"
  from lazyAdd_returns[OF wf, of k opts] obtain tag
    where tag: "fst (lazyAddStyleBucketToHead k opts d) = Inr tag" "styleBucketsInHead ?d1 k = Some tag"
    by blast
  have wf1: "well_formed ?d1" using wf by (rule well_formed_lazyAdd)
  from tag(2) have "tag \<in> ran (styleBucketsInHead ?d1)" by (auto simp: ran_def)
  with wf1 have "tag \<in> dom (elements ?d1)" and hd: "tag \<in> set (head ?d1)"
    by (auto simp: well_formed_def)
  then obtain el where el: "elements ?d1 tag = Some el" by auto
  have new: "tag = next_element d \<and> el = createStyleElement opts" if "styleBucketsInHead d k = None"
    using lazyAdd_new[OF wf that, of opts] tag(1) el by (simp add: with_bucket_def)
  have old: "?d1 = d" if "styleBucketsInHead d k \<noteq> None"
    using that by (auto simp: lazyAdd_existing)
  show ?thesis
  proof (intro exI conjI impI)
    show "fst (lazyAddStyleBucketToHead k opts d) = Inr tag" by (rule tag(1))
    show "well_formed ?d1" by (rule wf1)
    show "styleBucketsInHead ?d1 k = Some tag" by (rule tag(2))
    show "tag \<in> set (head ?d1)" by (rule hd)
    show "elements ?d1 tag = Some el" by (rule el)
    show "tag = next_element d" if "styleBucketsInHead d k = None" using new[OF that] by simp
    show "el = createStyleElement opts" if "styleBucketsInHead d k = None" using new[OF that] by simp
    show "?d1 = d" if "styleBucketsInHead d k \<noteq> None" using old[OF that] .
  qed
qed

text \<open>
  The exception that inserting the text throws, if any: none in debug mode, that of the
  host's \<open>insertRule\<close> in production mode.
\<close>

lemma applySheet_after_lazyAdd:
  assumes "lazyAddStyleBucketToHead (getStyleBucketName css) opts d = (Inr tag, d1)"
    and "elements d1 tag = Some el"
  shows "applySheet h opts css d =
           (if NODE_ENV h = Some ''production''
            then (case insertRule h (cssRules el) css of
                    Some e \<Rightarrow> (Inl e, d1)
                  | None \<Rightarrow>
                      (Inr (), d1\<lparr>elements := (elements d1)(tag \<mapsto> el\<lparr>cssRules := cssRules el @ [css]\<rparr>)\<rparr>))
            else (Inr (), d1\<lparr>elements := (elements d1)(tag \<mapsto> el\<lparr>childNodes := childNodes el @ [css]\<rparr>)\<rparr>))"
  using assms
  by (simp add: applySheet_def Let_def update_element_def sheet_rules_def split: option.splits)

lemma elements_update: "elements (d\<lparr>elements := m\<rparr>) = m"
  by simp

text \<open>
  Claim C7, amended. On any document reached from a fresh page, the lookup or creation of
  the insertion point never fails: it gives an element that is registered under the key
  of the sheet and is a child of the head, the new element when the key was not
  registered and nothing changed otherwise. Outside production mode the call then
  returns, and all it changes further is one more text node, the sheet, at the end of
  that element. In production mode the outcome is that of the host's \<open>insertRule\<close> on
  the rules of that element: the call throws whatever \<open>insertRule\<close> throws, leaving the
  rules as they were, and otherwise returns with the sheet as one more rule at the end.
\<close>

theorem applySheet_outcome:
  assumes "fresh_page d0"
  shows "(let d = applySheets h calls d0;
              key = getStyleBucketName css;
              d1 = snd (lazyAddStyleBucketToHead key opts d)
          in \<exists>tag el.
               fst (lazyAddStyleBucketToHead key opts d) = Inr tag
               \<and> styleBucketsInHead d1 key = Some tag
               \<and> tag \<in> set (head d1)
               \<and> elements d1 tag = Some el
               \<and> (styleBucketsInHead d key = None \<longrightarrow> tag = next_element d \<and> el = createStyleElement opts)
               \<and> (styleBucketsInHead d key \<noteq> None \<longrightarrow> d1 = d)
               \<and> applySheet h opts css d =
                   (if NODE_ENV h = Some ''production''
                    then (case insertRule h (cssRules el) css of
                            Some e \<Rightarrow> (Inl e, d1)
                          | None \<Rightarrow>
                              (Inr (),
                               d1\<lparr>elements := (elements d1)(tag \<mapsto> el\<lparr>cssRules := cssRules el @ [css]\<rparr>)\<rparr>))
                    else (Inr (),
                          d1\<lparr>elements := (elements d1)(tag \<mapsto> el\<lparr>childNodes := childNodes el @ [css]\<rparr>)\<rparr>)))"
proof -
  let ?d = "applySheets h calls d0"
  let ?key = "getStyleBucketName css"
  let ?d1 = "snd (lazyAddStyleBucketToHead ?key opts ?d)"
  have wf: "well_formed ?d"
    using assms by (simp add: fresh_page_well_formed well_formed_applySheets)
  from lazyAdd_result[OF wf, of ?key opts] obtain tag el
    where l: "fst (lazyAddStyleBucketToHead ?key opts ?d) = Inr tag"
      "styleBucketsInHead ?d1 ?key = Some tag" "tag \<in> set (head ?d1)"
      "elements ?d1 tag = Some el"
      "styleBucketsInHead ?d ?key = None \<longrightarrow> tag = next_element ?d \<and> el = createStyleElement opts"
      "styleBucketsInHead ?d ?key \<noteq> None \<longrightarrow> ?d1 = ?d"
    by (elim exE conjE)
  from l(1) have "lazyAddStyleBucketToHead ?key opts ?d = (Inr tag, ?d1)"
    by (simp add: prod_eq_iff)
  note a = applySheet_after_lazyAdd[OF this l(4), of h]
  show ?thesis
    unfolding Let_def
    by (rule exI[of _ tag], rule exI[of _ el]) (intro conjI l a)
qed

theorem applySheet_outcome_witness:
  "fresh_page example_page
   \<and> styleBucketsInHead
        (applySheets production_host [(no_opts, ''._a1234567:hover{color:red}'')] example_page)
        (getStyleBucketName ''._b1234567{color:blue}'') = None
   \<and> fst (applySheet production_host no_opts ''._b1234567{color:blue}''
            (applySheets production_host [(no_opts, ''._a1234567:hover{color:red}'')] example_page))
       = Inr ()
   \<and> elements (snd (applySheet production_host no_opts ''._b1234567{color:blue}''
            (applySheets production_host [(no_opts, ''._a1234567:hover{color:red}'')] example_page))) 3
       = Some ((createStyleElement no_opts)\<lparr>cssRules := [''._b1234567{color:blue}'']\<rparr>)"
proof -
  let ?css = "''._b1234567{color:blue}''"
  let ?calls = "[(no_opts, ''._a1234567:hover{color:red}'')]"
  let ?d = "applySheets production_host ?calls example_page"
  let ?d1 = "snd (lazyAddStyleBucketToHead (getStyleBucketName ?css) no_opts ?d)"
  have fresh: "fresh_page example_page" by (simp add: fresh_page_def example_page_def)
  have new: "styleBucketsInHead ?d (getStyleBucketName ?css) = None" by (simp add: runtime_defs)
  have nxt: "next_element ?d = 3" by (simp add: runtime_defs)
  have prod: "NODE_ENV production_host = Some ''production''" by (simp add: production_host_def)
  have none: "cssRules (createStyleElement no_opts) = []" by (simp add: createStyleElement_def)
  have accepts: "insertRule production_host [] ?css = None"
    by (simp add: production_host_def example_insertRule_def)
  from applySheet_outcome[OF fresh, where h = production_host and opts = no_opts
      and css = ?css and calls = ?calls, unfolded Let_def]
  obtain tag el where
    t: "styleBucketsInHead ?d (getStyleBucketName ?css) = None
          \<longrightarrow> tag = next_element ?d \<and> el = createStyleElement no_opts"
    and a: "applySheet production_host no_opts ?css ?d =
             (if NODE_ENV production_host = Some ''production''
              then (case insertRule production_host (cssRules el) ?css of
                      Some e \<Rightarrow> (Inl e, ?d1)
                    | None \<Rightarrow>
                        (Inr (),
                         ?d1\<lparr>elements := (elements ?d1)(tag \<mapsto> el\<lparr>cssRules := cssRules el @ [?css]\<rparr>)\<rparr>))
              else (Inr (),
                    ?d1\<lparr>elements := (elements ?d1)(tag \<mapsto> el\<lparr>childNodes := childNodes el @ [?css]\<rparr>)\<rparr>))"
    by (elim exE conjE)
  from t[THEN mp, OF new] have tag: "tag = 3" and el: "el = createStyleElement no_opts"
    unfolding nxt by (rule conjunct1, rule conjunct2)
  have r: "applySheet production_host no_opts ?css ?d =
          (Inr (), ?d1\<lparr>elements := (elements ?d1)(3 \<mapsto>
             (createStyleElement no_opts)\<lparr>cssRules := [] @ [?css]\<rparr>)\<rparr>)"
    using a unfolding tag el prod none accepts by (simp only: if_True option.case simp_thms)
  have res: "fst (applySheet production_host no_opts ?css ?d) = Inr ()"
    unfolding r by (simp only: fst_conv)
  have els: "elements (snd (applySheet production_host no_opts ?css ?d)) 3
           = Some ((createStyleElement no_opts)\<lparr>cssRules := [?css]\<rparr>)"
    unfolding r snd_conv by (simp only: elements_update fun_upd_same append_Nil)
  from fresh new res els show ?thesis by (intro conjI)
qed

text \<open>
  The claim as stated fails in production mode: the host's \<open>insertRule\<close> throws on the
  empty text, and nothing in \<open>applySheet\<close> catches the exception.
\<close>

theorem applySheet_raises_counterexample:
  "fst (applySheet production_host no_opts [] example_page) = Inl SyntaxError"
  by (simp add: runtime_defs)

text \<open>
  An exception of \<open>insertRule\<close> that depends on the rules already in the bucket: an
  \<open>@import\<close> rule after an \<open>@media\<close> rule, both in the at-rule bucket.
\<close>

lemma applySheet_import_after_media:
  "fst (applySheet production_host no_opts ''@import url(a.css);''
          (applySheets production_host [(no_opts, ''@media print{._a1234567{color:red}}'')]
             example_page))
     = Inl HierarchyRequestError"
  by (simp add: runtime_defs)

text \<open>
  What a repeated call does. Applying a sheet again creates no second insertion point: the
  head, the registry and the element supply stay as the first call left them. The
  repeated call changes the bucket's element only, and there it appends the text of the
  sheet once more (nothing when \<open>insertRule\<close> throws).
\<close>

lemma repeated_applySheet:
  assumes "fresh_page d0"
  shows "(let d1 = snd (applySheet h opts css (applySheets h calls d0));
              d2 = snd (applySheet h opts css d1)
          in head d2 = head d1
             \<and> styleBucketsInHead d2 = styleBucketsInHead d1
             \<and> next_element d2 = next_element d1
             \<and> (\<exists>tag el. styleBucketsInHead d1 (getStyleBucketName css) = Some tag
                   \<and> elements d1 tag = Some el
                   \<and> elements d2 =
                       (elements d1)(tag \<mapsto>
                          (if NODE_ENV h = Some ''production''
                           then (case insertRule h (cssRules el) css of
                                   Some e \<Rightarrow> el
                                 | None \<Rightarrow> el\<lparr>cssRules := cssRules el @ [css]\<rparr>)
                           else el\<lparr>childNodes := childNodes el @ [css]\<rparr>))))"
proof -
  let ?d = "applySheets h calls d0"
  let ?key = "getStyleBucketName css"
  let ?d1 = "snd (applySheet h opts css ?d)"
  let ?l = "lazyAddStyleBucketToHead ?key opts ?d1"
  have wf: "well_formed ?d"
    using assms by (simp add: fresh_page_well_formed well_formed_applySheets)
  then have wf1: "well_formed ?d1" by (rule well_formed_applySheet)
  from lazyAdd_result[OF wf, of ?key opts] have "styleBucketsInHead ?d1 ?key \<noteq> None"
    by (auto simp: applySheet_frame)
  with lazyAdd_result[OF wf1, of ?key opts] obtain tag el
    where l: "fst ?l = Inr tag" "styleBucketsInHead ?d1 ?key = Some tag"
      "elements ?d1 tag = Some el" "snd ?l = ?d1"
    by auto
  then have "?l = (Inr tag, ?d1)" by (simp add: prod_eq_iff)
  note second = applySheet_after_lazyAdd[OF this l(3), of h]
  have same: "elements ?d1 = (elements ?d1)(tag \<mapsto> el)" using l(3) by (simp add: map_upd_triv)
  show ?thesis
  proof (cases "NODE_ENV h = Some ''production''")
    case True
    show ?thesis
    proof (cases "insertRule h (cssRules el) css")
      case None
      with True second l show ?thesis unfolding Let_def by auto
    next
      case (Some e)
      with True second l same show ?thesis unfolding Let_def by auto
    qed
  next
    case False
    with second l show ?thesis unfolding Let_def by auto
  qed
qed


text \<open>
  Claim C2. A repeated call is not without effect: the function that \<open>createStyleSheet\<close>
  returns keeps no record of the sheets it has inserted, although its documentation names
  a cache \<open>inserted\<close> "for tracking what styles have already been added to the head"
  among its parameters. After two calls with the same sheet the bucket's element holds
  the text of the sheet twice.
\<close>

theorem applySheet_twice_duplicates:
  "map_option childNodes
     (elements (applySheets debug_host
        [(no_opts, ''._a1234567{color:red}''), (no_opts, ''._a1234567{color:red}'')] example_page) 2)
   = Some [[], ''._a1234567{color:red}'', ''._a1234567{color:red}'']"
  by (simp add: runtime_defs)

section \<open>Properties of the build-time pipeline\<close>

lemma each_node_eq:
  "each_node u root (nodes, orphanDecls) =
     (nodes @ map (scope_rule u) (filter is_rule root), orphanDecls @ filter is_decl root)"
proof (induction root arbitrary: nodes orphanDecls)
  case Nil
  then show ?case by simp
next
  case (Cons n root)
  then show ?case by (cases n) simp_all
qed

lemma groupGlobalRules_eq:
  "groupGlobalRules hash css root =
     ([''.'' @ hash css],
      (if filter is_decl root = [] then [] else [Rule (''.'' @ hash css) (filter is_decl root)])
      @ map (scope_rule (hash css)) (filter is_rule root))"
  by (simp add: groupGlobalRules_def each_node_eq Let_def)

text \<open>
  What the pass computes. It takes the hash of the whole input text as the unique name
  and hands the class \<open>.name\<close> to the callback once. The new children of the root are:
  when the root has declarations, one rule with the selector \<open>.name\<close> that holds all
  of them; then every node of type \<open>rule\<close> of the root with \<open>.name\<close> and a space put
  before its selector. Nothing else of the root is among them.
\<close>

lemma groupGlobalRules_result:
  "groupGlobalRules hash css root =
     ([''.'' @ hash css],
      (if filter is_decl root = [] then [] else [Rule (''.'' @ hash css) (filter is_decl root)])
      @ map (\<lambda>n. case n of Rule selector children \<Rightarrow> Rule (''.'' @ hash css @ '' '' @ selector) children | _ \<Rightarrow> n)
          (filter is_rule root))"
proof -
  have "scope_rule u = (\<lambda>n. case n of Rule selector children \<Rightarrow> Rule (''.'' @ u @ '' '' @ selector) children | _ \<Rightarrow> n)" for u
  proof
    fix n show "scope_rule u n = (case n of Rule selector children \<Rightarrow> Rule (''.'' @ u @ '' '' @ selector) children | _ \<Rightarrow> n)"
      by (cases n) simp_all
  qed
  then show ?thesis by (simp add: groupGlobalRules_eq)
qed

text \<open>
  Scenario C: the root of \<open>color:red;.x{color:blue}\<close> has one declaration and one rule.
\<close>

lemma groupGlobalRules_scenario_C:
  "groupGlobalRules example_hash ''color:red;.x{color:blue}''
     [Decl ''color'' ''red'' False, Rule ''.x'' [Decl ''color'' ''blue'' False]]
   = ([''.1b1wq3m''],
      [Rule ''.1b1wq3m'' [Decl ''color'' ''red'' False],
       Rule ''.1b1wq3m .x'' [Decl ''color'' ''blue'' False]])"
  using groupGlobalRules_result[of example_hash "''color:red;.x{color:blue}''"
      "[Decl ''color'' ''red'' False, Rule ''.x'' [Decl ''color'' ''blue'' False]]"]
  by (simp add: example_hash_def)

text \<open>
  Claim C4. Not every other top-level rule is rewritten: the \<open>switch\<close> of the pass has
  cases for declarations, rules and comments only, so an at-rule of the root takes the
  \<open>default\<close> case, is not put into \<open>nodes\<close>, and is gone once \<open>root.nodes = nodes\<close>.
  Here the declaration is wrapped and the rule \<open>.x\<close> is prefixed, and the \<open>@media\<close>
  rule between them is missing from the output.
\<close>

theorem groupGlobalRules_drops_at_rule:
  "groupGlobalRules example_hash ''color:red;@media print{.y{color:green}}.x{color:blue}''
     [Decl ''color'' ''red'' False,
      AtRule ''media'' ''print'' [Rule ''.y'' [Decl ''color'' ''green'' False]],
      Rule ''.x'' [Decl ''color'' ''blue'' False]]
   = ([''.1b1wq3m''],
      [Rule ''.1b1wq3m'' [Decl ''color'' ''red'' False],
       Rule ''.1b1wq3m .x'' [Decl ''color'' ''blue'' False]])"
  by (simp add: groupGlobalRules_def example_hash_def Let_def)

text \<open>
  Claim C3, amended. The output of the pass holds rules only, so the comments of the root
  are gone. The rules of the root keep their relative order: they are the output after
  the wrapper rule. The declarations of the root keep their relative order inside the
  wrapper rule. The wrapper rule comes first, wherever the declarations stood.
\<close>

theorem global_relative_order:
  "(let out = snd (groupGlobalRules hash css root); decls = filter is_decl root in
      (\<forall>n \<in> set out. is_rule n)
      \<and> drop (if decls = [] then 0 else 1) out = map (scope_rule (hash css)) (filter is_rule root)
      \<and> (decls \<noteq> [] \<longrightarrow> take 1 out = [Rule (''.'' @ hash css) decls]))"
proof -
  have "is_rule (scope_rule u n)" if "is_rule n" for u n
    using that by (cases n) simp_all
  then show ?thesis by (auto simp: groupGlobalRules_eq Let_def)
qed

theorem global_relative_order_witness:
  "(let out = snd (groupGlobalRules example_hash ''/*c*/.x{color:blue}color:red;.y{}top:0''
          [Comment ''c'', Rule ''.x'' [Decl ''color'' ''blue'' False], Decl ''color'' ''red'' False,
           Rule ''.y'' [], Decl ''top'' ''0'' False])
    in (\<forall>n \<in> set out. is_rule n)
       \<and> drop 1 out = [Rule ''.1b1wq3m .x'' [Decl ''color'' ''blue'' False], Rule ''.1b1wq3m .y'' []]
       \<and> take 1 out = [Rule ''.1b1wq3m'' [Decl ''color'' ''red'' False, Decl ''top'' ''0'' False]])"
  using global_relative_order[of example_hash "''/*c*/.x{color:blue}color:red;.y{}top:0''"
      "[Comment ''c'', Rule ''.x'' [Decl ''color'' ''blue'' False], Decl ''color'' ''red'' False,
           Rule ''.y'' [], Decl ''top'' ''0'' False]"]
  by (simp add: example_hash_def Let_def)

text \<open>
  The claim as stated fails: a declaration written after a rule is moved before it.
\<close>

theorem global_order_counterexample:
  "snd (groupGlobalRules example_hash ''.x{color:blue}color:red''
     [Rule ''.x'' [Decl ''color'' ''blue'' False], Decl ''color'' ''red'' False])
   = [Rule ''.1b1wq3m'' [Decl ''color'' ''red'' False],
      Rule ''.1b1wq3m .x'' [Decl ''color'' ''blue'' False]]"
  by (simp add: groupGlobalRules_def example_hash_def Let_def)

lemma plugins_global_branch:
  "GroupGlobalRules \<in> set (plugins p opts isGlobal) \<longleftrightarrow> isGlobal"
  "AtomicifyRules m pre \<in> set (plugins p opts isGlobal) \<Longrightarrow> \<not> isGlobal"
  by (auto simp: plugins_def split: if_splits)

lemma plugins_console: "plugins (p\<lparr>console := c\<rparr>) opts isGlobal = plugins p opts isGlobal"
  by (simp add: plugins_def)


lemma transformCss_returns:
  "run (plugins p opts isGlobal) css = Inr (pushed_sheets, pushed_classNames) \<Longrightarrow>
     fst (transformCss run css opts isGlobal p)
       = Inr \<lparr>sheets = pushed_sheets, classNames = unique pushed_classNames\<rparr>"
  by (simp add: transformCss_def plugins_console Let_def)

lemma transformCss_throws:
  "run (plugins p opts isGlobal) css = Inl e \<Longrightarrow>
     fst (transformCss run css opts isGlobal p)
       = Inl (CreateError ''css'' ''Unhandled exception''
                (error_message css (case e of Error_instance m \<Rightarrow> m | Other_value v \<Rightarrow> v)))"
  by (simp add: transformCss_def plugins_console Let_def)

lemma error_message_carries:
  "sublist css (error_message css message) \<and> sublist message (error_message css message)"
proof -
  have "\<exists>ps ss. error_message css message = ps @ css @ ss"
    unfolding error_message_def by (metis append.assoc)
  moreover have "\<exists>ps ss. error_message css message = ps @ message @ ss"
    unfolding error_message_def by (metis append.assoc append_Nil2)
  ultimately show ?thesis by (simp add: sublist_def)
qed



text \<open>
  Claim C8. A call either returns the result that holds every sheet pushed by the run and
  the class names pushed by it, or, when the run throws, raises one error made by
  \<open>createError\<close> whose message contains the input text and the message of what was
  thrown; there is no third outcome, and an error comes with no sheets.
\<close>

theorem transformCss_outcome:
  "(\<exists>pushed_sheets pushed_classNames.
      run (plugins p opts isGlobal) css = Inr (pushed_sheets, pushed_classNames)
      \<and> fst (transformCss run css opts isGlobal p)
          = Inr \<lparr>sheets = pushed_sheets, classNames = unique pushed_classNames\<rparr>)
   \<or> (\<exists>e text.
      run (plugins p opts isGlobal) css = Inl e
      \<and> fst (transformCss run css opts isGlobal p)
          = Inl (CreateError ''css'' ''Unhandled exception'' text)
      \<and> sublist css text
      \<and> sublist (case e of Error_instance m \<Rightarrow> m | Other_value v \<Rightarrow> v) text)"
proof (cases "run (plugins p opts isGlobal) css")
  case (Inr pushed)
  then show ?thesis using transformCss_returns[of run p opts isGlobal css "fst pushed" "snd pushed"]
    by (cases pushed) simp
next
  case (Inl e)
  then show ?thesis using transformCss_throws[of run p opts isGlobal css e] error_message_carries
    by blast
qed

theorem transformCss_outcome_witness:
  "\<exists>text. fst (transformCss example_run ''}'' default_opts False example_process)
             = Inl (CreateError ''css'' ''Unhandled exception'' text)
          \<and> sublist ''}'' text
          \<and> sublist ''<css input>:1:1: Unexpected }'' text"
proof -
  have run: "example_run (plugins example_process default_opts False) ''}''
               = Inl (Error_instance ''<css input>:1:1: Unexpected }'')"
    by (simp add: example_run_def)
  from transformCss_outcome[of example_run example_process default_opts False "''}''"]
  show ?thesis unfolding run by auto
qed

text \<open>
  A second call with the same arguments, made in the process as the first call left it,
  gives the same result.
\<close>

lemma transformCss_twice:
  "fst (transformCss run css opts isGlobal (snd (transformCss run css opts isGlobal p)))
     = fst (transformCss run css opts isGlobal p)"
  by (simp add: transformCss_def plugins_console Let_def split: sum.splits prod.splits)




lemma distinct_unique: "distinct (unique xs)"
  by (simp add: unique_def)

lemma set_unique: "set (unique xs) = set xs"
  by (simp add: unique_def)

lemma count_list_distinct:
  "distinct xs \<Longrightarrow> count_list xs c = (if c \<in> set xs then 1 else 0)"
  by (induction xs) auto

lemma count_list_unique: "count_list (unique xs) c = (if c \<in> set xs then 1 else 0)"
  using count_list_distinct[OF distinct_unique, of xs c] by (simp add: set_unique)

text \<open>
  Claim C10. When the run completes, the call returns, and in the class names of the
  result every name that the run pushed, however many times, occurs exactly once, and no
  other name occurs; so the returned names are pairwise different.
\<close>

theorem transformCss_classNames_once:
  assumes "run (plugins p opts isGlobal) css = Inr (pushed_sheets, pushed_classNames)"
  shows "\<exists>r. fst (transformCss run css opts isGlobal p) = Inr r
           \<and> distinct (classNames r)
           \<and> (\<forall>c. count_list (classNames r) c = (if c \<in> set pushed_classNames then 1 else 0))"
  using transformCss_returns[where run = run and p = p and opts = opts and isGlobal = isGlobal
      and css = css, OF assms]
  by (simp add: distinct_unique count_list_unique)

theorem transformCss_classNames_once_witness:
  "example_run (plugins example_process default_opts False) ''color:red''
     = Inr ([''color:red''], [''_a'', ''_b'', ''_a''])
   \<and> (\<exists>r. fst (transformCss example_run ''color:red'' default_opts False example_process) = Inr r
          \<and> distinct (classNames r)
          \<and> count_list (classNames r) ''_a'' = 1
          \<and> count_list (classNames r) ''_b'' = 1
          \<and> count_list (classNames r) ''_c'' = 0)"
proof -
  have run: "example_run (plugins example_process default_opts False) ''color:red''
     = Inr ([''color:red''], [''_a'', ''_b'', ''_a''])"
    by (simp add: example_run_def)
  from transformCss_classNames_once[where run = example_run and p = example_process
      and opts = default_opts and isGlobal = False and css = "''color:red''", OF run]
  obtain r
    where r: "fst (transformCss example_run ''color:red'' default_opts False example_process) = Inr r"
      "distinct (classNames r)"
      "\<forall>c. count_list (classNames r) c = (if c \<in> set [''_a'', ''_b'', ''_a''] then 1 else 0)"
    by (elim exE conjE)
  from r(3) have "count_list (classNames r) ''_a'' = 1" "count_list (classNames r) ''_b'' = 1"
    "count_list (classNames r) ''_c'' = 0"
    by simp_all
  with run r(1,2) show ?thesis by blast
qed

end
